theory Spec2Isabelle
  imports Main
begin

section \<open>Strings and \<open>String.prototype.indexOf\<close>\<close>

text \<open>
  A JavaScript string is a sequence of code units; it is modelled as a \<open>string\<close>
  (a list of characters), whose \<open>length\<close> plays the part of \<open>.length\<close>.
  \<open>s.indexOf(t, position)\<close> clamps \<open>position\<close> into \<open>[0, s.length]\<close>, then
  returns the least index at or after it where \<open>t\<close> occurs in \<open>s\<close>, or \<open>-1\<close>.
  The empty search string occurs at the clamped position itself.
\<close>

fun startsWith :: "string \<Rightarrow> string \<Rightarrow> bool" where
  "startsWith s [] = True"
| "startsWith [] (c # t) = False"
| "startsWith (a # s) (c # t) = (a = c \<and> startsWith s t)"

text \<open>\<open>stringIndexOf s t k\<close> searches the suffix \<open>s\<close> whose first code unit has index \<open>k\<close>.\<close>

fun stringIndexOf :: "string \<Rightarrow> string \<Rightarrow> nat \<Rightarrow> int" where
  "stringIndexOf [] t k = (if t = [] then int k else - 1)"
| "stringIndexOf (a # s) t k =
     (if startsWith (a # s) t then int k else stringIndexOf s t (Suc k))"

definition indexOf :: "string \<Rightarrow> string \<Rightarrow> int \<Rightarrow> int" where
  "indexOf s t position =
     (let start = nat (min (max position 0) (int (length s)))
      in stringIndexOf (drop start s) t start)"

section \<open>Decorations\<close>

text \<open>
  \<open>Decoration.mark({class: c}).range(from, to)\<close>: a range of the editor's text carrying
  the class attribute \<open>c\<close>.
\<close>

record mark_range =
  range_from :: int
  range_to :: int
  range_class :: string

fun join :: "string \<Rightarrow> string list \<Rightarrow> string" where
  "join sep [] = []"
| "join sep [c] = c"
| "join sep (c # d # cs) = c @ sep @ join sep (d # cs)"

definition classedMark :: "string list \<Rightarrow> string" where
  "classedMark classes = join '' '' classes"

definition mark_at :: "string \<Rightarrow> int \<Rightarrow> int \<Rightarrow> mark_range" where
  "mark_at c a b = \<lparr>range_from = a, range_to = b, range_class = c\<rparr>"

section \<open>The command \<open>highlight-parts-of-speech\<close>\<close>

text \<open>One term of the analyzer's output, as the command reads it.\<close>

record pos_term =
  term_text :: string
  term_tags :: "string list"
  term_pre :: string
  term_post :: string

definition removeBias :: "string \<Rightarrow> string" where
  "removeBias tag =
     (if tag = ''MaleName'' then ''MasculineName''
      else if tag = ''FemaleName'' then ''FeminineName''
      else tag)"

text \<open>
  The body of the \<open>forEach\<close> callback. The state is the pair of the two variables the
  callback assigns: \<open>currOffset\<close> and the array \<open>posMarks\<close>.
\<close>

definition posStep :: "string \<Rightarrow> int \<times> mark_range list \<Rightarrow> pos_term \<Rightarrow> int \<times> mark_range list" where
  "posStep content st t =
     (let start = indexOf content (term_text t) (fst st);
          currOffset = start + int (length (term_text t))
      in (currOffset,
          if length (term_text t) \<noteq> 0
          then snd st @ [mark_at (classedMark (map removeBias (term_tags t))) start currOffset]
          else snd st))"

definition posLoop :: "string \<Rightarrow> pos_term list \<Rightarrow> int \<times> mark_range list" where
  "posLoop content termsArr = foldl (posStep content) (0, []) termsArr"

definition posMarks :: "string \<Rightarrow> pos_term list \<Rightarrow> mark_range list" where
  "posMarks content termsArr = snd (posLoop content termsArr)"

text \<open>A term that carries nothing but its text and tags.\<close>

definition mk_term :: "string \<Rightarrow> string list \<Rightarrow> pos_term" where
  "mk_term s tg = \<lparr>term_text = s, term_tags = tg, term_pre = [], term_post = []\<rparr>"

section \<open>The command \<open>highlight-sentences\<close>\<close>

text \<open>
  \<open>Decoration.mark(...).range(a, b)\<close> is the editor library's. A mark decoration may not
  be empty: \<open>range\<close> throws a \<open>RangeError\<close> unless \<open>a < b\<close>. The parts-of-speech loop
  calls \<open>range\<close> only under the guard \<open>text.length\<close>, where the end lies behind the
  start; the sentence loop calls it for every sentence.
\<close>

datatype js_error = RangeError

definition markRange :: "string \<Rightarrow> int \<Rightarrow> int \<Rightarrow> js_error + mark_range" where
  "markRange c a b = (if b \<le> a then Inl RangeError else Inr (mark_at c a b))"

text \<open>
  The callback of \<open>map\<close> assigns \<open>currOffset\<close> and returns one range for every
  sentence; \<open>text.slice(0, 5)\<close> is \<open>take 5\<close>. An exception thrown by \<open>range\<close> leaves
  the callback, \<open>map\<close> and the command: no marks are dispatched then.
\<close>

definition sentenceStep ::
  "string \<Rightarrow> int \<times> mark_range list \<Rightarrow> string \<Rightarrow> js_error + int \<times> mark_range list" where
  "sentenceStep content st txt =
     (let start = indexOf content (take 5 txt) (fst st);
          currOffset = start + int (length txt)
      in case markRange (classedMark [''Sentence'']) start currOffset of
           Inl e \<Rightarrow> Inl e
         | Inr m \<Rightarrow> Inr (currOffset, snd st @ [m]))"

fun sentenceFold ::
  "string \<Rightarrow> int \<times> mark_range list \<Rightarrow> string list \<Rightarrow> js_error + int \<times> mark_range list" where
  "sentenceFold content st [] = Inr st"
| "sentenceFold content st (s # ss) =
     (case sentenceStep content st s of
        Inl e \<Rightarrow> Inl e
      | Inr st' \<Rightarrow> sentenceFold content st' ss)"

definition sentenceLoop :: "string \<Rightarrow> string list \<Rightarrow> js_error + int \<times> mark_range list" where
  "sentenceLoop content sentences = sentenceFold content (0, []) sentences"

definition sentenceMarks :: "string \<Rightarrow> string list \<Rightarrow> js_error + mark_range list" where
  "sentenceMarks content sentences =
     (case sentenceLoop content sentences of Inl e \<Rightarrow> Inl e | Inr st \<Rightarrow> Inr (snd st))"

text \<open>
  Every fragment of the run is found: at each step \<open>indexOf\<close> does not return \<open>-1\<close>.
  The cursor passed on is the one the loop computes.
\<close>

fun posAllFound :: "string \<Rightarrow> int \<Rightarrow> pos_term list \<Rightarrow> bool" where
  "posAllFound content cur [] = True"
| "posAllFound content cur (t # ts) =
     (indexOf content (term_text t) cur \<noteq> - 1 \<and>
      posAllFound content (indexOf content (term_text t) cur + int (length (term_text t))) ts)"

text \<open>
  The marks pushed so far lie in the text, one after the other, all before the cursor.
\<close>

definition marks_before :: "string \<Rightarrow> int \<Rightarrow> mark_range list \<Rightarrow> bool" where
  "marks_before content cur ms \<longleftrightarrow>
     0 \<le> cur \<and> cur \<le> int (length content) \<and>
     sorted_wrt (\<lambda>a b. range_to a \<le> range_from b) ms \<and>
     (\<forall>m\<in>set ms. 0 \<le> range_from m \<and> range_from m < range_to m \<and> range_to m \<le> cur)"

text \<open>
  The end of the range pushed last by the parts-of-speech loop, 0 before the first
  fragment.
\<close>

definition previous_end :: "string \<Rightarrow> pos_term list \<Rightarrow> int" where
  "previous_end content termsArr =
     (if termsArr = [] then 0 else range_to (last (posMarks content termsArr)))"

text \<open>The same for the sentence pass, which searches the prefix of five characters.\<close>

fun sentenceAllFound :: "string \<Rightarrow> int \<Rightarrow> string list \<Rightarrow> bool" where
  "sentenceAllFound content cur [] = True"
| "sentenceAllFound content cur (s # ss) =
     (indexOf content (take 5 s) cur \<noteq> - 1 \<and>
      sentenceAllFound content (indexOf content (take 5 s) cur + int (length s)) ss)"

definition marks_upto :: "int \<Rightarrow> mark_range list \<Rightarrow> bool" where
  "marks_upto cur ms \<longleftrightarrow>
     sorted_wrt (\<lambda>a b. range_to a \<le> range_from b) ms \<and>
     (\<forall>m\<in>set ms. 0 \<le> range_from m \<and> range_from m < range_to m \<and> range_to m \<le> cur)"

section \<open>The document cache: \<open>refreshDocs\<close>\<close>

text \<open>
  \<open>Docs\<close> maps a path to \<open>Document | null\<close>. The vault's \<open>cachedRead\<close> and the
  model's \<open>readDoc\<close> are parameters; each may throw, which is the left injection.
  A file is represented by its path, \<open>None\<close> is the \<open>null\<close> file.
\<close>

type_synonym path = string

definition getWinkDocFromFile ::
  "(path \<Rightarrow> 'e + string) \<Rightarrow> (string \<Rightarrow> 'e + 'd) \<Rightarrow> path option \<Rightarrow> 'e + 'd option" where
  "getWinkDocFromFile cachedRead readDoc file =
     (case file of
        None \<Rightarrow> Inr None
      | Some f \<Rightarrow>
          (case cachedRead f of
             Inl e \<Rightarrow> Inl e
           | Inr txt \<Rightarrow> (case readDoc txt of Inl e \<Rightarrow> Inl e | Inr d \<Rightarrow> Inr (Some d))))"

text \<open>
  The \<open>for\<close> loop inside \<open>try\<close>: the first exception leaves the loop; what was
  assigned to \<open>Docs\<close> before stays assigned.
\<close>

fun refreshLoop ::
  "(path \<Rightarrow> 'e + string) \<Rightarrow> (string \<Rightarrow> 'e + 'd) \<Rightarrow> path list \<Rightarrow>
   (path \<rightharpoonup> 'd option) \<Rightarrow> (path \<rightharpoonup> 'd option) \<times> 'e option" where
  "refreshLoop cachedRead readDoc [] docs = (docs, None)"
| "refreshLoop cachedRead readDoc (f # fs) docs =
     (case getWinkDocFromFile cachedRead readDoc (Some f) of
        Inl e \<Rightarrow> (docs, Some e)
      | Inr d \<Rightarrow> refreshLoop cachedRead readDoc fs (docs(f \<mapsto> d)))"

text \<open>
  The outcome: the cache, the successive messages of the one \<open>Notice\<close> object, and what
  \<open>console.log\<close> received.
\<close>

record ('d, 'e) refresh_outcome =
  out_Docs :: "path \<rightharpoonup> 'd option"
  out_notice :: "string list"
  out_console :: "'e list"

definition refreshDocs ::
  "(path \<Rightarrow> 'e + string) \<Rightarrow> (string \<Rightarrow> 'e + 'd) \<Rightarrow> path list \<Rightarrow>
   (path \<rightharpoonup> 'd option) \<Rightarrow> ('d, 'e) refresh_outcome" where
  "refreshDocs cachedRead readDoc files docs =
     (case refreshLoop cachedRead readDoc files docs of
        (docs', None) \<Rightarrow>
          \<lparr>out_Docs = docs', out_notice = [''Refreshing docs...'', ''Docs Refreshed''],
           out_console = []\<rparr>
      | (docs', Some e) \<Rightarrow>
          \<lparr>out_Docs = docs',
           out_notice = [''Refreshing docs...'',
             ''An error occured, check the console for more information.''],
           out_console = [e]\<rparr>)"

text \<open>Three files, of which the second cannot be read.\<close>

definition three_files :: "path list" where
  "three_files = [''a.md'', ''b.md'', ''c.md'']"

definition read_fails_on_b :: "path \<Rightarrow> string + string" where
  "read_fails_on_b p = (if p = ''b.md'' then Inl ''ENOENT'' else Inr (''text of '' @ p))"

definition readDoc_ok :: "string \<Rightarrow> string + string" where
  "readDoc_ok txt = Inr (''doc of '' @ txt)"

definition no_docs :: "path \<rightharpoonup> string option" where
  "no_docs = Map.empty"

section \<open>Start-up: \<open>onload\<close>\<close>














section \<open>Aggregate queries: \<open>getNoStopBoW\<close> and \<open>getNoStopSet\<close>\<close>

text \<open>
  An item of a document answers \<open>out(its.value)\<close>, \<open>out(its.type)\<close> and
  \<open>out(its.stopWordFlag)\<close>. A document offers its tokens and its entities;
  \<open>None\<close> is a \<open>null\<close> or \<open>undefined\<close> document.
\<close>

record item =
  its_value :: string
  its_type :: string
  its_stopWordFlag :: bool

record document =
  doc_tokens :: "item list"
  doc_entities :: "item list"

datatype item_kind = Tokens | Entities

fun items_of :: "document \<Rightarrow> item_kind \<Rightarrow> item list" where
  "items_of doc Tokens = doc_tokens doc"
| "items_of doc Entities = doc_entities doc"

definition noStop :: "item \<Rightarrow> bool" where
  "noStop i \<longleftrightarrow> its_type i = ''word'' \<and> \<not> its_stopWordFlag i"

text \<open>\<open>as.bow\<close> counts each value; \<open>as.set\<close> collects the values.\<close>

definition bow_add :: "(string \<rightharpoonup> nat) \<Rightarrow> string \<Rightarrow> (string \<rightharpoonup> nat)" where
  "bow_add b w = b(w \<mapsto> (case b w of None \<Rightarrow> 1 | Some n \<Rightarrow> Suc n))"

definition as_bow :: "string list \<Rightarrow> (string \<rightharpoonup> nat)" where
  "as_bow ws = foldl bow_add Map.empty ws"

definition as_set :: "string list \<Rightarrow> string set" where
  "as_set ws = set ws"

definition getNoStopBoW :: "document option \<Rightarrow> item_kind \<Rightarrow> (string \<rightharpoonup> nat)" where
  "getNoStopBoW doc kind =
     (case doc of
        None \<Rightarrow> Map.empty
      | Some d \<Rightarrow> as_bow (map its_value (filter noStop (items_of d kind))))"

definition getNoStopSet :: "document option \<Rightarrow> item_kind \<Rightarrow> string set" where
  "getNoStopSet doc kind =
     (case doc of
        None \<Rightarrow> {}
      | Some d \<Rightarrow> as_set (map its_value (filter noStop (items_of d kind))))"

definition word_item :: "string \<Rightarrow> bool \<Rightarrow> item" where
  "word_item w stop = \<lparr>its_value = w, its_type = ''word'', its_stopWordFlag = stop\<rparr>"

definition sample_doc :: document where
  "sample_doc = \<lparr>doc_tokens = [word_item ''the'' True, word_item ''cat'' False,
       \<lparr>its_value = ''.'', its_type = ''punctuation'', its_stopWordFlag = False\<rparr>,
       word_item ''cat'' False],
     doc_entities = []\<rparr>"

section \<open>The decoration field\<close>

record document_change =
  change_from :: int
  change_to :: int
  insertedLength :: int

text \<open>
  Modelled from the spec: the range set behind the field (\<open>Decoration.none\<close>,
  \<open>map\<close>, \<open>update\<close> with \<open>add\<close> or \<open>filter\<close>) belongs to the editor library and is
  not part of the plugin's code. The specification gives its contract: a collection kept sorted
  by start; \<open>addAll\<close> is a merge-insert that preserves the order; \<open>filter\<close> retains the
  ranges that satisfy the predicate; \<open>mapThroughChange\<close> leaves a range entirely before
  \<open>from\<close> as it is, translates a range entirely after \<open>to\<close> by
  \<open>insertedLength - (to - from)\<close>, and drops a range that overlaps the edited span.
  The batch is sorted before the merge, as \<open>sort: true\<close> asks.
\<close>

fun mergeRanges :: "mark_range list \<Rightarrow> mark_range list \<Rightarrow> mark_range list" where
  "mergeRanges [] bs = bs"
| "mergeRanges (a # as) [] = a # as"
| "mergeRanges (a # as) (b # bs) =
     (if range_from a \<le> range_from b then a # mergeRanges as (b # bs)
      else b # mergeRanges (a # as) bs)"

text \<open>
  Modelled from the spec: \<open>addAll\<close>, the merge-insert of a batch; the range set's own
  code is not part of the plugin's code.
\<close>

definition addAll :: "mark_range list \<Rightarrow> mark_range list \<Rightarrow> mark_range list" where
  "addAll rs batch = mergeRanges rs (sort_key range_from batch)"

text \<open>
  Modelled from the spec: \<open>filter\<close> retains the ranges that satisfy the predicate; the
  range set's own code is not part of the plugin's code.
\<close>

definition filterRanges :: "(mark_range \<Rightarrow> bool) \<Rightarrow> mark_range list \<Rightarrow> mark_range list" where
  "filterRanges p rs = filter p rs"

text \<open>
  Modelled from the spec: what \<open>mapThroughChange\<close> does to one range; the range set's own
  code is not part of the plugin's code. \<open>None\<close> is a dropped range.
\<close>

definition mapRange :: "document_change \<Rightarrow> mark_range \<Rightarrow> mark_range option" where
  "mapRange c r =
     (let delta = insertedLength c - (change_to c - change_from c)
      in if range_to r \<le> change_from c then Some r
         else if change_to c \<le> range_from r
         then Some (r\<lparr>range_from := range_from r + delta, range_to := range_to r + delta\<rparr>)
         else None)"

text \<open>
  Modelled from the spec: \<open>mapThroughChange\<close> on the whole set; the range set's own code
  is not part of the plugin's code.
\<close>

definition mapThroughChange :: "document_change \<Rightarrow> mark_range list \<Rightarrow> mark_range list" where
  "mapThroughChange c rs = List.map_filter (mapRange c) rs"

text \<open>
  Modelled from the spec: \<open>map\<close> through the changes of a whole transaction; the range
  set's own code is not part of the plugin's code. All changes of a transaction refer to
  the offsets before the transaction, and together they act as one combined change.
  \<open>shiftFor cs r\<close> compares every change with the range as it was before the
  transaction: a change behind the range leaves it alone, a change before the range
  contributes its net length, a change that overlaps the range drops it (\<open>None\<close>).
\<close>

fun shiftFor :: "document_change list \<Rightarrow> mark_range \<Rightarrow> int option" where
  "shiftFor [] r = Some 0"
| "shiftFor (c # cs) r =
     (if range_to r \<le> change_from c then shiftFor cs r
      else if change_to c \<le> range_from r
      then map_option (\<lambda>d. insertedLength c - (change_to c - change_from c) + d) (shiftFor cs r)
      else None)"

text \<open>
  Modelled from the spec: one range through the changes of a transaction; the range
  set's own code is not part of the plugin's code.
\<close>

definition mapRangeThrough :: "document_change list \<Rightarrow> mark_range \<Rightarrow> mark_range option" where
  "mapRangeThrough cs r =
     map_option (\<lambda>d. r\<lparr>range_from := range_from r + d, range_to := range_to r + d\<rparr>)
       (shiftFor cs r)"

text \<open>
  Modelled from the spec: the whole set through the changes of a transaction; the range
  set's own code is not part of the plugin's code.
\<close>

definition mapThroughChanges :: "document_change list \<Rightarrow> mark_range list \<Rightarrow> mark_range list" where
  "mapThroughChanges cs rs = List.map_filter (mapRangeThrough cs) rs"

text \<open>
  The field itself, from the source: \<open>create\<close> returns the empty set; \<open>update\<close> maps the
  value through the transaction's changes, all at once, then applies the effects in
  order, an \<open>addMarks\<close> effect adding its ranges and a \<open>filterMarks\<close> effect filtering by
  its predicate; any other effect leaves the value alone.
\<close>

datatype effect = AddMarks "mark_range list" | FilterMarks "mark_range \<Rightarrow> bool" | OtherEffect

record transaction =
  tr_changes :: "document_change list"
  tr_effects :: "effect list"

fun applyEffect :: "mark_range list \<Rightarrow> effect \<Rightarrow> mark_range list" where
  "applyEffect v (AddMarks batch) = addAll v batch"
| "applyEffect v (FilterMarks p) = filterRanges p v"
| "applyEffect v OtherEffect = v"

definition markField_create :: "mark_range list" where
  "markField_create = []"

definition markField_update :: "mark_range list \<Rightarrow> transaction \<Rightarrow> mark_range list" where
  "markField_update v tr =
     foldl applyEffect (mapThroughChanges (tr_changes tr) v) (tr_effects tr)"

text \<open>The three operations of the claim, as a sequence to run.\<close>

datatype rangeset_op =
  AddAll "mark_range list" | Filter "mark_range \<Rightarrow> bool" | MapThroughChange document_change

fun applyOp :: "mark_range list \<Rightarrow> rangeset_op \<Rightarrow> mark_range list" where
  "applyOp rs (AddAll batch) = addAll rs batch"
| "applyOp rs (Filter p) = filterRanges p rs"
| "applyOp rs (MapThroughChange c) = mapThroughChange c rs"

definition range_ok :: "mark_range \<Rightarrow> bool" where
  "range_ok r \<longleftrightarrow> 0 \<le> range_from r \<and> range_from r < range_to r"

definition rangeset_ok :: "mark_range list \<Rightarrow> bool" where
  "rangeset_ok rs \<longleftrightarrow> sorted_wrt (\<lambda>a b. range_from a \<le> range_from b) rs \<and> list_all range_ok rs"

definition change_ok :: "document_change \<Rightarrow> bool" where
  "change_ok c \<longleftrightarrow> 0 \<le> change_from c \<and> change_from c \<le> change_to c \<and> 0 \<le> insertedLength c"

fun op_ok :: "rangeset_op \<Rightarrow> bool" where
  "op_ok (AddAll batch) = list_all range_ok batch"
| "op_ok (Filter p) = True"
| "op_ok (MapThroughChange c) = change_ok c"

fun effect_ok :: "effect \<Rightarrow> bool" where
  "effect_ok (AddMarks batch) = list_all range_ok batch"
| "effect_ok (FilterMarks p) = True"
| "effect_ok OtherEffect = True"

text \<open>
  The changes of one transaction are well formed, in ascending order, and do not
  overlap.
\<close>

definition changes_ok :: "document_change list \<Rightarrow> bool" where
  "changes_ok cs \<longleftrightarrow>
     list_all change_ok cs \<and> sorted_wrt (\<lambda>c d. change_to c \<le> change_from d) cs"

definition transaction_ok :: "transaction \<Rightarrow> bool" where
  "transaction_ok tr \<longleftrightarrow> changes_ok (tr_changes tr) \<and> list_all effect_ok (tr_effects tr)"

definition has_class :: "string \<Rightarrow> mark_range \<Rightarrow> bool" where
  "has_class c r \<longleftrightarrow> range_class r = c"

section \<open>Facts about \<open>indexOf\<close>\<close>

lemma startsWith_take: "startsWith s t \<longleftrightarrow> take (length t) s = t"
  by (induction s t rule: startsWith.induct) auto

lemma startsWith_length: "startsWith s t \<Longrightarrow> length t \<le> length s"
  by (induction s t rule: startsWith.induct) auto

lemma stringIndexOf_empty: "stringIndexOf s [] k = int k"
  by (cases s) simp_all

lemma stringIndexOf_bounds:
  "stringIndexOf s t k \<noteq> - 1 \<Longrightarrow>
   int k \<le> stringIndexOf s t k \<and> stringIndexOf s t k + int (length t) \<le> int k + int (length s)"
proof (induction s arbitrary: k)
  case Nil
  then show ?case by (simp split: if_splits)
next
  case (Cons a s)
  show ?case
  proof (cases "startsWith (a # s) t")
    case True
    then show ?thesis using startsWith_length [OF True] by simp
  next
    case False
    with Cons.prems have "stringIndexOf s t (Suc k) \<noteq> - 1" by simp
    from Cons.IH [OF this] False show ?thesis by simp
  qed
qed

lemma stringIndexOf_match:
  "stringIndexOf s t k \<noteq> - 1 \<Longrightarrow> startsWith (drop (nat (stringIndexOf s t k) - k) s) t"
proof (induction s arbitrary: k)
  case Nil
  then show ?case by (simp split: if_splits)
next
  case (Cons a s)
  show ?case
  proof (cases "startsWith (a # s) t")
    case True
    then show ?thesis by simp
  next
    case False
    with Cons.prems have nf: "stringIndexOf s t (Suc k) \<noteq> - 1" by simp
    have ge: "int (Suc k) \<le> stringIndexOf s t (Suc k)"
      using stringIndexOf_bounds [OF nf] by simp
    then have "nat (stringIndexOf s t (Suc k)) - k = Suc (nat (stringIndexOf s t (Suc k)) - Suc k)"
      by linarith
    with Cons.IH [OF nf] False show ?thesis by simp
  qed
qed

lemma stringIndexOf_least:
  "k \<le> j \<Longrightarrow> int j < stringIndexOf s t k \<Longrightarrow> \<not> startsWith (drop (j - k) s) t"
proof (induction s arbitrary: k)
  case Nil
  then show ?case by (simp split: if_splits)
next
  case (Cons a s)
  show ?case
  proof (cases "startsWith (a # s) t")
    case True
    with Cons.prems show ?thesis by simp
  next
    case False
    show ?thesis
    proof (cases "j = k")
      case True
      with False show ?thesis by simp
    next
      case ne: False
      with Cons.prems have le: "Suc k \<le> j" by simp
      from Cons.prems False have "int j < stringIndexOf s t (Suc k)" by simp
      from Cons.IH [OF le this] have "\<not> startsWith (drop (j - Suc k) s) t" .
      moreover from le have "j - k = Suc (j - Suc k)" by simp
      ultimately show ?thesis by simp
    qed
  qed
qed

lemma indexOf_empty: "indexOf s [] p = min (max p 0) (int (length s))"
  by (simp add: indexOf_def Let_def stringIndexOf_empty)

lemma indexOf_found:
  assumes "indexOf s t p \<noteq> - 1"
  shows "min (max p 0) (int (length s)) \<le> indexOf s t p"
    and "indexOf s t p + int (length t) \<le> int (length s)"
    and "take (length t) (drop (nat (indexOf s t p)) s) = t"
proof -
  define st where "st = nat (min (max p 0) (int (length s)))"
  have r: "indexOf s t p = stringIndexOf (drop st s) t st"
    by (simp add: indexOf_def Let_def st_def)
  have st_le: "st \<le> length s" by (simp add: st_def)
  from assms r have nf: "stringIndexOf (drop st s) t st \<noteq> - 1" by simp
  from stringIndexOf_bounds [OF nf] st_le
  have b: "int st \<le> indexOf s t p" "indexOf s t p + int (length t) \<le> int (length s)"
    by (simp_all add: r)
  from b(1) show "min (max p 0) (int (length s)) \<le> indexOf s t p" by (simp add: st_def)
  from b(2) show "indexOf s t p + int (length t) \<le> int (length s)" .
  from b(1) have "nat (indexOf s t p) - st + st = nat (indexOf s t p)" by linarith
  with stringIndexOf_match [OF nf] show "take (length t) (drop (nat (indexOf s t p)) s) = t"
    by (simp add: startsWith_take r [symmetric])
qed

lemma indexOf_found_nonneg:
  assumes "indexOf s t p \<noteq> - 1"
  shows "0 \<le> indexOf s t p"
proof -
  have "0 \<le> min (max p 0) (int (length s))" by simp
  with indexOf_found(1) [OF assms] show ?thesis by linarith
qed

lemma indexOf_leftmost:
  assumes "min (max p 0) (int (length s)) \<le> int j" and "int j < indexOf s t p"
  shows "take (length t) (drop j s) \<noteq> t"
proof -
  define st where "st = nat (min (max p 0) (int (length s)))"
  have r: "indexOf s t p = stringIndexOf (drop st s) t st"
    by (simp add: indexOf_def Let_def st_def)
  from assms(1) have le: "st \<le> j" by (simp add: st_def)
  from assms(2) have "int j < stringIndexOf (drop st s) t st" by (simp add: r)
  from stringIndexOf_least [OF le this] le show ?thesis
    by (simp add: startsWith_take)
qed

lemma stringIndexOf_none:
  "stringIndexOf s t k = - 1 \<Longrightarrow> \<not> startsWith (drop j s) t"
proof (induction s arbitrary: k j)
  case Nil
  then show ?case by (cases t) (simp_all split: if_splits)
next
  case (Cons a s)
  then show ?case by (cases j) (simp_all split: if_splits)
qed

lemma indexOf_not_found:
  assumes "indexOf s t p = - 1" and "min (max p 0) (int (length s)) \<le> int j"
  shows "take (length t) (drop j s) \<noteq> t"
proof -
  define st where "st = nat (min (max p 0) (int (length s)))"
  have r: "indexOf s t p = stringIndexOf (drop st s) t st"
    by (simp add: indexOf_def Let_def st_def)
  from assms(2) have le: "st \<le> j" by (simp add: st_def)
  from assms(1) r have "stringIndexOf (drop st s) t st = - 1" by simp
  from stringIndexOf_none [OF this, of "j - st"] le show ?thesis
    by (simp add: startsWith_take)
qed

lemma indexOf_nonempty_ge:
  assumes "t \<noteq> []" and "indexOf s t p \<noteq> - 1"
  shows "p \<le> indexOf s t p"
proof -
  from assms(1) have "0 < length t" by simp
  with indexOf_found(1,2) [OF assms(2)] show ?thesis by linarith
qed

section \<open>Facts about the parts-of-speech loop\<close>

lemma fst_posStep:
  "fst (posStep content st t) = indexOf content (term_text t) (fst st) + int (length (term_text t))"
  by (simp add: posStep_def Let_def)

lemma posStep_found:
  assumes "indexOf content (term_text t) cur \<noteq> - 1" and "term_text t \<noteq> []"
  shows "posStep content (cur, ms) t =
    (indexOf content (term_text t) cur + int (length (term_text t)),
     ms @ [mark_at (classedMark (map removeBias (term_tags t)))
             (indexOf content (term_text t) cur)
             (indexOf content (term_text t) cur + int (length (term_text t)))])"
  using assms by (simp add: posStep_def Let_def)

lemma marks_before_step:
  assumes inv: "marks_before content cur ms"
    and found: "indexOf content (term_text t) cur \<noteq> - 1" and ne: "term_text t \<noteq> []"
  shows "marks_before content (fst (posStep content (cur, ms) t)) (snd (posStep content (cur, ms) t))"
proof -
  let ?i = "indexOf content (term_text t) cur"
  have ge: "cur \<le> ?i" using indexOf_nonempty_ge [OF ne found] .
  have nonneg: "0 \<le> ?i" using indexOf_found_nonneg [OF found] .
  have fits: "?i + int (length (term_text t)) \<le> int (length content)"
    using indexOf_found(2) [OF found] .
  have pos: "0 < int (length (term_text t))" using ne by simp
  show ?thesis
    using inv ge nonneg fits pos
    unfolding posStep_found [OF found ne] marks_before_def
    by (auto simp: sorted_wrt_append mark_at_def)
qed

lemma marks_before_foldl:
  "marks_before content cur ms \<Longrightarrow> posAllFound content cur ts \<Longrightarrow>
   \<forall>t\<in>set ts. term_text t \<noteq> [] \<Longrightarrow>
   marks_before content (fst (foldl (posStep content) (cur, ms) ts))
     (snd (foldl (posStep content) (cur, ms) ts))"
proof (induction ts arbitrary: cur ms)
  case Nil
  then show ?case by simp
next
  case (Cons t ts)
  from Cons.prems have found: "indexOf content (term_text t) cur \<noteq> - 1"
    and ne: "term_text t \<noteq> []" by simp_all
  have step: "marks_before content (indexOf content (term_text t) cur + int (length (term_text t)))
      (snd (posStep content (cur, ms) t))"
    using marks_before_step [OF Cons.prems(1) found ne] by (simp add: posStep_found [OF found ne])
  from Cons.prems have rest: "posAllFound content (indexOf content (term_text t) cur + int (length (term_text t))) ts"
    and nes: "\<forall>t\<in>set ts. term_text t \<noteq> []" by simp_all
  from Cons.IH [OF step rest nes] show ?case
    by (simp add: posStep_found [OF found ne])
qed

lemma length_posStep:
  "length (snd (posStep content st t)) = length (snd st) + (if term_text t = [] then 0 else 1)"
  by (simp add: posStep_def Let_def)

lemma length_foldl_posStep:
  "length (snd (foldl (posStep content) st ts)) =
   length (snd st) + length (filter (\<lambda>t. term_text t \<noteq> []) ts)"
  by (induction ts arbitrary: st) (simp_all add: length_posStep)

lemma cursor_in_text:
  "0 \<le> fst st \<Longrightarrow> fst st \<le> int (length content) \<Longrightarrow> posAllFound content (fst st) ts \<Longrightarrow>
   0 \<le> fst (foldl (posStep content) st ts) \<and>
   fst (foldl (posStep content) st ts) \<le> int (length content)"
proof (induction ts arbitrary: st)
  case Nil
  then show ?case by simp
next
  case (Cons t ts)
  from Cons.prems have found: "indexOf content (term_text t) (fst st) \<noteq> - 1"
    and rest: "posAllFound content (fst (posStep content st t)) ts"
    by (simp_all add: fst_posStep)
  have lo: "0 \<le> fst (posStep content st t)"
    using indexOf_found_nonneg [OF found] by (simp add: fst_posStep)
  have hi: "fst (posStep content st t) \<le> int (length content)"
    using indexOf_found(2) [OF found] by (simp add: fst_posStep)
  from Cons.IH [OF lo hi rest] show ?case by simp
qed

lemma pos_classes:
  "m \<in> set (snd (foldl (posStep content) st ts)) \<Longrightarrow>
   m \<in> set (snd st) \<or> (\<exists>t\<in>set ts. range_class m = classedMark (map removeBias (term_tags t)))"
proof (induction ts arbitrary: st)
  case Nil
  then show ?case by simp
next
  case (Cons t ts)
  from Cons.prems have "m \<in> set (snd (foldl (posStep content) (posStep content st t) ts))"
    by simp
  from Cons.IH [OF this] show ?case
    by (auto simp: posStep_def Let_def mark_at_def split: if_splits)
qed

lemma classedMark_single: "classedMark [c] = c"
  by (simp add: classedMark_def)

section \<open>Facts about the sentence loop\<close>

lemma markRange_nonempty: "a < b \<Longrightarrow> markRange c a b = Inr (mark_at c a b)"
  by (simp add: markRange_def)

text \<open>
  Under its guard the parts-of-speech loop asks for a range that is never refused, which
  is why \<open>posStep\<close> needs no exception.
\<close>

lemma posStep_range_accepted:
  "term_text t \<noteq> [] \<Longrightarrow>
   markRange c start (start + int (length (term_text t))) =
     Inr (mark_at c start (start + int (length (term_text t))))"
  by (simp add: markRange_def)

lemma sentenceStep_eq:
  "s \<noteq> [] \<Longrightarrow>
   sentenceStep content (cur, ms) s =
     Inr (indexOf content (take 5 s) cur + int (length s),
          ms @ [mark_at ''Sentence'' (indexOf content (take 5 s) cur)
                  (indexOf content (take 5 s) cur + int (length s))])"
  by (simp add: sentenceStep_def Let_def classedMark_single markRange_def)

lemma sentenceStep_empty: "sentenceStep content st [] = Inl RangeError"
  by (simp add: sentenceStep_def Let_def markRange_def)

lemma marks_upto_fold:
  "marks_upto cur ms \<Longrightarrow> sentenceAllFound content cur ss \<Longrightarrow> \<forall>s\<in>set ss. s \<noteq> [] \<Longrightarrow>
   \<exists>cur' ms'. sentenceFold content (cur, ms) ss = Inr (cur', ms') \<and> marks_upto cur' ms' \<and>
     length ms' = length ms + length ss"
proof (induction ss arbitrary: cur ms)
  case Nil
  then show ?case by simp
next
  case (Cons s ss)
  let ?i = "indexOf content (take 5 s) cur"
  let ?m = "mark_at ''Sentence'' ?i (?i + int (length s))"
  from Cons.prems have found: "?i \<noteq> - 1" and ne: "s \<noteq> []"
    and rest: "sentenceAllFound content (?i + int (length s)) ss"
    and nes: "\<forall>s\<in>set ss. s \<noteq> []"
    by simp_all
  from ne have pne: "take 5 s \<noteq> []" by simp
  have ge: "cur \<le> ?i" using indexOf_nonempty_ge [OF pne found] .
  have nonneg: "0 \<le> ?i" using indexOf_found_nonneg [OF found] .
  have step: "marks_upto (?i + int (length s)) (ms @ [?m])"
    using Cons.prems(1) ge nonneg ne
    by (auto simp: marks_upto_def sorted_wrt_append mark_at_def)
  from Cons.IH [OF step rest nes] obtain cur' ms'
    where f: "sentenceFold content (?i + int (length s), ms @ [?m]) ss = Inr (cur', ms')"
      and inv: "marks_upto cur' ms'"
      and len: "length ms' = length (ms @ [?m]) + length ss"
    by blast
  have "sentenceFold content (cur, ms) (s # ss) = Inr (cur', ms')"
    using f by (simp add: sentenceStep_eq [OF ne])
  with inv len show ?case by simp
qed

lemma disjoint_increasing:
  assumes "sorted_wrt (\<lambda>a b. range_to a \<le> range_from b) ms"
    and "\<forall>m\<in>set ms. range_from m < range_to m"
  shows "sorted_wrt (\<lambda>a b. range_from a < range_from b) ms"
  by (rule sorted_wrt_mono_rel [OF _ assms(1)]) (use assms(2) in force)

lemma pos_forward_progress:
  assumes "posAllFound content 0 termsArr" and "\<forall>t\<in>set termsArr. term_text t \<noteq> []"
  shows "sorted_wrt (\<lambda>a b. range_from a < range_from b) (posMarks content termsArr) \<and>
         sorted_wrt (\<lambda>a b. range_to a \<le> range_from b) (posMarks content termsArr) \<and>
         (\<forall>m\<in>set (posMarks content termsArr).
            0 \<le> range_from m \<and> range_from m < range_to m \<and> range_to m \<le> int (length content)) \<and>
         length (posMarks content termsArr) = length termsArr"
proof -
  have "marks_before content 0 []" by (simp add: marks_before_def)
  from marks_before_foldl [OF this assms]
  have inv: "marks_before content (fst (posLoop content termsArr)) (posMarks content termsArr)"
    by (simp add: posMarks_def posLoop_def)
  then have disj: "sorted_wrt (\<lambda>a b. range_to a \<le> range_from b) (posMarks content termsArr)"
    and wf: "\<forall>m\<in>set (posMarks content termsArr). 0 \<le> range_from m \<and> range_from m < range_to m
        \<and> range_to m \<le> int (length content)"
    by (auto simp: marks_before_def)
  from wf have "\<forall>m\<in>set (posMarks content termsArr). range_from m < range_to m" by blast
  from disjoint_increasing [OF disj this]
  have incr: "sorted_wrt (\<lambda>a b. range_from a < range_from b) (posMarks content termsArr)" .
  have "filter (\<lambda>t. term_text t \<noteq> []) termsArr = termsArr"
    using assms(2) by (simp add: filter_id_conv)
  then have len: "length (posMarks content termsArr) = length termsArr"
    using length_foldl_posStep [of content "(0, [])" termsArr] by (simp add: posMarks_def posLoop_def)
  from incr disj wf len show ?thesis by blast
qed

lemma sentence_forward_progress:
  assumes "sentenceAllFound content 0 sentences" and "\<forall>s\<in>set sentences. s \<noteq> []"
  shows "\<exists>ms. sentenceMarks content sentences = Inr ms \<and>
           sorted_wrt (\<lambda>a b. range_from a < range_from b) ms \<and>
           sorted_wrt (\<lambda>a b. range_to a \<le> range_from b) ms \<and>
           (\<forall>m\<in>set ms. 0 \<le> range_from m \<and> range_from m < range_to m) \<and>
           length ms = length sentences"
proof -
  have "marks_upto 0 []" by (simp add: marks_upto_def)
  from marks_upto_fold [OF this assms] obtain cur' ms'
    where f: "sentenceFold content (0, []) sentences = Inr (cur', ms')"
      and inv: "marks_upto cur' ms'"
      and len: "length ms' = length sentences"
    by auto
  have sm: "sentenceMarks content sentences = Inr ms'"
    using f by (simp add: sentenceMarks_def sentenceLoop_def)
  from inv have disj: "sorted_wrt (\<lambda>a b. range_to a \<le> range_from b) ms'"
    and wf: "\<forall>m\<in>set ms'. 0 \<le> range_from m \<and> range_from m < range_to m"
    by (auto simp: marks_upto_def)
  from wf have "\<forall>m\<in>set ms'. range_from m < range_to m" by blast
  from disjoint_increasing [OF disj this]
  have incr: "sorted_wrt (\<lambda>a b. range_from a < range_from b) ms'" .
  from sm incr disj wf len show ?thesis by blast
qed

text \<open>
  The fragment occurs in the text at or after the cursor: then the step pushes the range
  of its leftmost occurrence there.
\<close>

lemma clamp_le: "cur \<le> int j \<Longrightarrow> min (max cur 0) (int (length content)) \<le> int j"
  by (simp add: min_le_iff_disj)

lemma posStep_leftmost:
  assumes ne: "term_text t \<noteq> []"
    and occ: "cur \<le> int k" "take (length (term_text t)) (drop k content) = term_text t"
  shows "\<exists>s. posStep content (cur, ms) t =
             (int s + int (length (term_text t)),
              ms @ [mark_at (classedMark (map removeBias (term_tags t))) (int s)
                      (int s + int (length (term_text t)))]) \<and>
           cur \<le> int s \<and>
           take (length (term_text t)) (drop s content) = term_text t \<and>
           (\<forall>j. cur \<le> int j \<and> j < s \<longrightarrow>
                take (length (term_text t)) (drop j content) \<noteq> term_text t)"
proof -
  let ?i = "indexOf content (term_text t) cur"
  have found: "?i \<noteq> - 1"
  proof
    assume "?i = - 1"
    from indexOf_not_found [OF this clamp_le [OF occ(1)]] occ(2) show False by simp
  qed
  have nonneg: "0 \<le> ?i" using indexOf_found_nonneg [OF found] .
  have ge: "cur \<le> int (nat ?i)" using indexOf_nonempty_ge [OF ne found] nonneg by simp
  have at: "take (length (term_text t)) (drop (nat ?i) content) = term_text t"
    using indexOf_found(3) [OF found] .
  have least: "take (length (term_text t)) (drop j content) \<noteq> term_text t"
    if "cur \<le> int j \<and> j < nat ?i" for j
  proof -
    from that have a: "cur \<le> int j" and b: "j < nat ?i" by simp_all
    from a have "min (max cur 0) (int (length content)) \<le> int j" by (rule clamp_le)
    moreover from b nonneg have "int j < ?i" by linarith
    ultimately show ?thesis by (rule indexOf_leftmost)
  qed
  have step: "posStep content (cur, ms) t =
             (int (nat ?i) + int (length (term_text t)),
              ms @ [mark_at (classedMark (map removeBias (term_tags t))) (int (nat ?i))
                      (int (nat ?i) + int (length (term_text t)))])"
    using posStep_found [OF found ne, of ms] nonneg by simp
  show ?thesis
  proof (rule exI [of _ "nat ?i"], intro conjI allI impI)
    show "posStep content (cur, ms) t =
             (int (nat ?i) + int (length (term_text t)),
              ms @ [mark_at (classedMark (map removeBias (term_tags t))) (int (nat ?i))
                      (int (nat ?i) + int (length (term_text t)))])"
      by (rule step)
    show "cur \<le> int (nat ?i)" by (rule ge)
    show "take (length (term_text t)) (drop (nat ?i) content) = term_text t" by (rule at)
    show "take (length (term_text t)) (drop j content) \<noteq> term_text t"
      if "cur \<le> int j \<and> j < nat ?i" for j
      using that by (rule least)
  qed
qed

lemma cursor_is_last_end:
  assumes "ts \<noteq> []" and "term_text (last ts) \<noteq> []"
  shows "fst (foldl (posStep content) st ts) =
         range_to (last (snd (foldl (posStep content) st ts)))"
proof -
  from assms(1) obtain ts' t where ts: "ts = ts' @ [t]"
    by (cases ts rule: rev_cases) auto
  with assms(2) have "term_text t \<noteq> []" by simp
  then show ?thesis by (simp add: ts posStep_def Let_def mark_at_def)
qed

lemma posMarks_leftmost:
  assumes ne_all: "\<forall>u\<in>set termsArr. term_text u \<noteq> []"
    and ne: "term_text t \<noteq> []"
    and occ: "previous_end content termsArr \<le> int k"
      "take (length (term_text t)) (drop k content) = term_text t"
  shows "\<exists>s. posMarks content (termsArr @ [t]) =
             posMarks content termsArr @
               [mark_at (classedMark (map removeBias (term_tags t))) (int s)
                  (int s + int (length (term_text t)))] \<and>
           previous_end content termsArr \<le> int s \<and>
           take (length (term_text t)) (drop s content) = term_text t \<and>
           (\<forall>j. previous_end content termsArr \<le> int j \<and> j < s \<longrightarrow>
                take (length (term_text t)) (drop j content) \<noteq> term_text t)"
proof -
  let ?st = "foldl (posStep content) (0, []) termsArr"
  have cur: "fst ?st = previous_end content termsArr"
  proof (cases "termsArr = []")
    case True
    then show ?thesis by (simp add: previous_end_def)
  next
    case False
    with ne_all have "term_text (last termsArr) \<noteq> []" by simp
    from cursor_is_last_end [OF False this, of content "(0, [])"] False
    show ?thesis by (simp add: previous_end_def posMarks_def posLoop_def)
  qed
  from occ(1) cur have ck: "fst ?st \<le> int k" by simp
  from posStep_leftmost [OF ne ck occ(2), of "snd ?st"] obtain s
    where s1: "posStep content (fst ?st, snd ?st) t =
             (int s + int (length (term_text t)),
              snd ?st @ [mark_at (classedMark (map removeBias (term_tags t))) (int s)
                      (int s + int (length (term_text t)))])"
      and s2: "fst ?st \<le> int s"
      and s3: "take (length (term_text t)) (drop s content) = term_text t"
      and s4: "\<forall>j. fst ?st \<le> int j \<and> j < s \<longrightarrow>
                take (length (term_text t)) (drop j content) \<noteq> term_text t"
    by blast
  have pm: "posMarks content (termsArr @ [t]) =
             posMarks content termsArr @
               [mark_at (classedMark (map removeBias (term_tags t))) (int s)
                  (int s + int (length (term_text t)))]"
    using s1 by (simp add: posMarks_def posLoop_def)
  from s2 cur have p2: "previous_end content termsArr \<le> int s" by simp
  from s4 cur have p4: "\<forall>j. previous_end content termsArr \<le> int j \<and> j < s \<longrightarrow>
                take (length (term_text t)) (drop j content) \<noteq> term_text t" by simp
  from pm p2 s3 p4 show ?thesis by blast
qed

section \<open>The located ranges\<close>

text \<open>
  Claim C1, as amended. The loop has no branch for a fragment that \<open>indexOf\<close> does not
  find: the result \<open>-1\<close> is used as the start. For such a fragment the loop pushes the
  range from \<open>-1\<close> to the fragment's length minus one and sets the cursor to that end.
  The loop is never cut short: it pushes one range for every fragment with non-empty
  text, found or not.
\<close>

theorem not_found_step:
  assumes "indexOf content (term_text t) cur = - 1"
  shows "posStep content (cur, ms) t =
           (int (length (term_text t)) - 1,
            ms @ [mark_at (classedMark (map removeBias (term_tags t))) (- 1)
                    (int (length (term_text t)) - 1)]) \<and>
         length (posMarks content termsArr) =
           length (filter (\<lambda>u. term_text u \<noteq> []) termsArr)"
proof -
  have "term_text t \<noteq> []"
  proof
    assume "term_text t = []"
    with assms have "min (max cur 0) (int (length content)) = - 1"
      by (simp add: indexOf_empty)
    then show False by linarith
  qed
  with assms have "posStep content (cur, ms) t =
           (int (length (term_text t)) - 1,
            ms @ [mark_at (classedMark (map removeBias (term_tags t))) (- 1)
                    (int (length (term_text t)) - 1)])"
    by (simp add: posStep_def Let_def)
  moreover have "length (posMarks content termsArr) =
           length (filter (\<lambda>u. term_text u \<noteq> []) termsArr)"
    using length_foldl_posStep [of content "(0, [])" termsArr]
    by (simp add: posMarks_def posLoop_def)
  ultimately show ?thesis by blast
qed

theorem not_found_step_witness:
  "indexOf ''abc'' (term_text (mk_term ''xyz'' [''Noun''])) 0 = - 1 \<and>
   posStep ''abc'' (0, []) (mk_term ''xyz'' [''Noun'']) = (2, [mark_at ''Noun'' (- 1) 2])"
proof -
  have h: "indexOf ''abc'' (term_text (mk_term ''xyz'' [''Noun''])) 0 = - 1"
    by (simp add: indexOf_def mk_term_def)
  from not_found_step [OF h, of "[]" "[]"] h show ?thesis
    by (simp add: mk_term_def classedMark_def removeBias_def)
qed

text \<open>
  Claim C1 as stated fails: in the text \<open>abc\<close> the fragment \<open>xy\<close> is not found, yet a
  range is pushed for it and the cursor moves from 0 to 1.
\<close>

theorem not_found_counterexample:
  "indexOf ''abc'' ''xy'' 0 = - 1 \<and>
   posLoop ''abc'' [mk_term ''xy'' []] = (1, [mark_at [] (- 1) 1])"
  by (simp add: indexOf_def posLoop_def posStep_def mk_term_def classedMark_def)

text \<open>
  Claim C3. When every fragment has non-empty text and is found from the cursor on, the
  ranges returned have strictly increasing starts, each range ends at or before the
  start of the next one, each is non-empty and starts at or after 0, and there is one
  range for each fragment. This holds for the parts-of-speech pass, whose ranges also
  end within the text, and for the sentence pass, which then returns its ranges.
\<close>

theorem forward_progress:
  "(posAllFound content 0 termsArr \<and> (\<forall>t\<in>set termsArr. term_text t \<noteq> []) \<longrightarrow>
      sorted_wrt (\<lambda>a b. range_from a < range_from b) (posMarks content termsArr) \<and>
      sorted_wrt (\<lambda>a b. range_to a \<le> range_from b) (posMarks content termsArr) \<and>
      (\<forall>m\<in>set (posMarks content termsArr).
         0 \<le> range_from m \<and> range_from m < range_to m \<and> range_to m \<le> int (length content)) \<and>
      length (posMarks content termsArr) = length termsArr) \<and>
   (sentenceAllFound content 0 sentences \<and> (\<forall>s\<in>set sentences. s \<noteq> []) \<longrightarrow>
      (\<exists>ms. sentenceMarks content sentences = Inr ms \<and>
         sorted_wrt (\<lambda>a b. range_from a < range_from b) ms \<and>
         sorted_wrt (\<lambda>a b. range_to a \<le> range_from b) ms \<and>
         (\<forall>m\<in>set ms. 0 \<le> range_from m \<and> range_from m < range_to m) \<and>
         length ms = length sentences))"
  using pos_forward_progress [of content termsArr]
    sentence_forward_progress [of content sentences]
  by blast

theorem forward_progress_witness:
  "posAllFound ''a cat sat'' 0 [mk_term ''cat'' [], mk_term ''sat'' []] \<and>
   term_text (mk_term ''cat'' []) \<noteq> [] \<and> term_text (mk_term ''sat'' []) \<noteq> [] \<and>
   posMarks ''a cat sat'' [mk_term ''cat'' [], mk_term ''sat'' []] = [mark_at [] 2 5, mark_at [] 6 9] \<and>
   sorted_wrt (\<lambda>a b. range_from a < range_from b)
     (posMarks ''a cat sat'' [mk_term ''cat'' [], mk_term ''sat'' []]) \<and>
   sorted_wrt (\<lambda>a b. range_to a \<le> range_from b)
     (posMarks ''a cat sat'' [mk_term ''cat'' [], mk_term ''sat'' []]) \<and>
   sentenceAllFound ''Go on. Stop.'' 0 [''Go on.'', ''Stop.''] \<and>
   sentenceMarks ''Go on. Stop.'' [''Go on.'', ''Stop.''] =
     Inr [mark_at ''Sentence'' 0 6, mark_at ''Sentence'' 7 12] \<and>
   sorted_wrt (\<lambda>a b. range_to a \<le> range_from b)
     [mark_at ''Sentence'' 0 6, mark_at ''Sentence'' 7 12]"
proof -
  have h1: "posAllFound ''a cat sat'' 0 [mk_term ''cat'' [], mk_term ''sat'' []]"
    by (simp add: indexOf_def mk_term_def)
  have h2: "\<forall>t\<in>set [mk_term ''cat'' [], mk_term ''sat'' []]. term_text t \<noteq> []"
    by (simp add: mk_term_def)
  have h3: "term_text (mk_term ''cat'' []) \<noteq> [] \<and> term_text (mk_term ''sat'' []) \<noteq> []"
    by (simp add: mk_term_def)
  have h4: "sentenceAllFound ''Go on. Stop.'' 0 [''Go on.'', ''Stop.'']"
    by (simp add: indexOf_def)
  have h5: "\<forall>s\<in>set [''Go on.'', ''Stop.'']. s \<noteq> []"
    by simp
  have v: "posMarks ''a cat sat'' [mk_term ''cat'' [], mk_term ''sat'' []] = [mark_at [] 2 5, mark_at [] 6 9]"
    by (simp add: posMarks_def posLoop_def posStep_def indexOf_def mk_term_def classedMark_def)
  have w: "sentenceMarks ''Go on. Stop.'' [''Go on.'', ''Stop.''] =
     Inr [mark_at ''Sentence'' 0 6, mark_at ''Sentence'' 7 12]"
    by (simp add: sentenceMarks_def sentenceLoop_def sentenceStep_def markRange_def indexOf_def
        classedMark_def)
  from forward_progress [of "''a cat sat''" "[mk_term ''cat'' [], mk_term ''sat'' []]"
      "[''Go on.'', ''Stop.'']"] h1 h2
  have p: "sorted_wrt (\<lambda>a b. range_from a < range_from b)
       (posMarks ''a cat sat'' [mk_term ''cat'' [], mk_term ''sat'' []]) \<and>
     sorted_wrt (\<lambda>a b. range_to a \<le> range_from b)
       (posMarks ''a cat sat'' [mk_term ''cat'' [], mk_term ''sat'' []])"
    by blast
  from forward_progress [of "''Go on. Stop.''" "[]" "[''Go on.'', ''Stop.'']"] h4 h5
  obtain ms where "sentenceMarks ''Go on. Stop.'' [''Go on.'', ''Stop.''] = Inr ms"
    and "sorted_wrt (\<lambda>a b. range_to a \<le> range_from b) ms"
    by blast
  with w have q: "sorted_wrt (\<lambda>a b. range_to a \<le> range_from b)
     [mark_at ''Sentence'' 0 6, mark_at ''Sentence'' 7 12]"
    by simp
  from h1 h3 v p h4 w q show ?thesis by blast
qed

text \<open>
  Claim C5, as amended. A fragment with empty text pushes no range, and it sets the
  cursor to the cursor clamped into the text: the cursor is unchanged when it lies
  between 0 and the length of the text, which is so as long as every earlier fragment
  was found.
\<close>

theorem empty_fragment_step:
  assumes "term_text t = []"
  shows "posStep content (cur, ms) t = (min (max cur 0) (int (length content)), ms) \<and>
         (0 \<le> cur \<and> cur \<le> int (length content) \<longrightarrow> posStep content (cur, ms) t = (cur, ms)) \<and>
         (posAllFound content 0 ts \<longrightarrow> posLoop content (ts @ [t]) = posLoop content ts)"
proof -
  have step: "posStep content (c, m) t = (min (max c 0) (int (length content)), m)" for c m
    using assms by (simp add: posStep_def Let_def indexOf_empty)
  have within: "posStep content (c, m) t = (c, m)" if "0 \<le> c" "c \<le> int (length content)" for c m
    using that by (simp add: step)
  have run: "posLoop content (ts @ [t]) = posLoop content ts" if found: "posAllFound content 0 ts"
  proof -
    have "0 \<le> fst (posLoop content ts) \<and> fst (posLoop content ts) \<le> int (length content)"
      using cursor_in_text [of "(0, [])" content ts] found by (simp add: posLoop_def)
    then have "posStep content (fst (posLoop content ts), snd (posLoop content ts)) t =
        (fst (posLoop content ts), snd (posLoop content ts))"
      using within by blast
    then show ?thesis by (simp add: posLoop_def)
  qed
  from step within run show ?thesis by blast
qed

theorem empty_fragment_step_witness:
  "term_text (mk_term [] [''Noun'']) = [] \<and>
   posAllFound ''a cat'' 0 [mk_term ''cat'' []] \<and>
   posStep ''a cat'' (5, []) (mk_term [] [''Noun'']) = (5, []) \<and>
   posLoop ''a cat'' ([mk_term ''cat'' []] @ [mk_term [] [''Noun'']]) = posLoop ''a cat'' [mk_term ''cat'' []]"
proof -
  have h: "term_text (mk_term [] [''Noun'']) = []" by (simp add: mk_term_def)
  have f: "posAllFound ''a cat'' 0 [mk_term ''cat'' []]"
    by (simp add: indexOf_def mk_term_def)
  from empty_fragment_step [OF h, of "''a cat''" 5 "[]" "[mk_term ''cat'' []]"] h f
  show ?thesis by simp
qed

text \<open>
  Claim C5 as stated fails: in the text \<open>a\<close>, after the fragment \<open>xyz\<close> that is not
  found, the cursor is 2; the empty fragment that follows moves it to 1.
\<close>

theorem empty_fragment_counterexample:
  "fst (posLoop ''a'' [mk_term ''xyz'' []]) = 2 \<and>
   fst (posStep ''a'' (posLoop ''a'' [mk_term ''xyz'' []]) (mk_term [] [])) = 1"
  by (simp add: indexOf_def posLoop_def posStep_def mk_term_def)



text \<open>
  Claim C7. On \<open>cat cat cat\<close> the three fragments \<open>cat\<close> get the ranges from 0 to 3, from
  4 to 7 and from 8 to 11. In general, when a fragment with non-empty text occurs in the
  text at or after the cursor, the step pushes the range of its leftmost occurrence at
  or after the cursor and moves the cursor to the end of that range. In a run whose
  fragments all have non-empty text the cursor is the end of the previous range (0 for
  the first fragment): the range pushed for the next fragment is that of its leftmost
  occurrence at or after the end of the previous range.
\<close>

theorem repeated_fragments:
  "posMarks ''cat cat cat'' [mk_term ''cat'' [], mk_term ''cat'' [], mk_term ''cat'' []] =
     [mark_at [] 0 3, mark_at [] 4 7, mark_at [] 8 11] \<and>
   (term_text t \<noteq> [] \<and> cur \<le> int k \<and>
    take (length (term_text t)) (drop k content) = term_text t \<longrightarrow>
      (\<exists>s. posStep content (cur, ms) t =
             (int s + int (length (term_text t)),
              ms @ [mark_at (classedMark (map removeBias (term_tags t))) (int s)
                      (int s + int (length (term_text t)))]) \<and>
           cur \<le> int s \<and>
           take (length (term_text t)) (drop s content) = term_text t \<and>
           (\<forall>j. cur \<le> int j \<and> j < s \<longrightarrow>
                take (length (term_text t)) (drop j content) \<noteq> term_text t))) \<and>
   ((\<forall>u\<in>set termsArr. term_text u \<noteq> []) \<and> term_text t \<noteq> [] \<and>
    previous_end content termsArr \<le> int k \<and>
    take (length (term_text t)) (drop k content) = term_text t \<longrightarrow>
      (\<exists>s. posMarks content (termsArr @ [t]) =
             posMarks content termsArr @
               [mark_at (classedMark (map removeBias (term_tags t))) (int s)
                  (int s + int (length (term_text t)))] \<and>
           previous_end content termsArr \<le> int s \<and>
           take (length (term_text t)) (drop s content) = term_text t \<and>
           (\<forall>j. previous_end content termsArr \<le> int j \<and> j < s \<longrightarrow>
                take (length (term_text t)) (drop j content) \<noteq> term_text t)))"
proof -
  have "posMarks ''cat cat cat'' [mk_term ''cat'' [], mk_term ''cat'' [], mk_term ''cat'' []] =
     [mark_at [] 0 3, mark_at [] 4 7, mark_at [] 8 11]"
    by (simp add: posMarks_def posLoop_def posStep_def indexOf_def mk_term_def classedMark_def)
  then show ?thesis
    using posStep_leftmost [of t cur k content ms] posMarks_leftmost [of termsArr t content k]
    by blast
qed

theorem repeated_fragments_witness:
  "term_text (mk_term ''cat'' []) \<noteq> [] \<and>
   take 3 (drop 8 ''cat cat cat'') = ''cat'' \<and>
   previous_end ''cat cat cat'' [mk_term ''cat'' []] = 3 \<and>
   posStep ''cat cat cat'' (3, []) (mk_term ''cat'' []) = (7, [mark_at [] 4 7]) \<and>
   posMarks ''cat cat cat'' ([mk_term ''cat'' []] @ [mk_term ''cat'' []]) =
     posMarks ''cat cat cat'' [mk_term ''cat'' []] @ [mark_at [] 4 7] \<and>
   take 3 (drop 3 ''cat cat cat'') \<noteq> ''cat''"
proof -
  have h1: "term_text (mk_term ''cat'' []) \<noteq> []" by (simp add: mk_term_def)
  have h2: "take (length (term_text (mk_term ''cat'' []))) (drop 8 ''cat cat cat'') =
      term_text (mk_term ''cat'' [])"
    by (simp add: mk_term_def)
  have h3: "\<forall>u\<in>set [mk_term ''cat'' []]. term_text u \<noteq> []" by (simp add: mk_term_def)
  have p: "previous_end ''cat cat cat'' [mk_term ''cat'' []] = 3"
    by (simp add: previous_end_def posMarks_def posLoop_def posStep_def indexOf_def mk_term_def
        mark_at_def)
  have v: "posStep ''cat cat cat'' (3, []) (mk_term ''cat'' []) = (7, [mark_at [] 4 7])"
    by (simp add: posStep_def indexOf_def mk_term_def classedMark_def)
  have m1: "posMarks ''cat cat cat'' [mk_term ''cat'' []] = [mark_at [] 0 3]"
    by (simp add: posMarks_def posLoop_def posStep_def indexOf_def mk_term_def classedMark_def)
  have m2: "posMarks ''cat cat cat'' ([mk_term ''cat'' []] @ [mk_term ''cat'' []]) =
      [mark_at [] 0 3, mark_at [] 4 7]"
    by (simp add: posMarks_def posLoop_def posStep_def indexOf_def mk_term_def classedMark_def)
  note th = repeated_fragments [where t = "mk_term ''cat'' []" and cur = 3 and k = 8
      and content = "''cat cat cat''" and ms = "[]" and termsArr = "[mk_term ''cat'' []]"]
  from th h1 h2 obtain s
    where s1: "posStep ''cat cat cat'' (3, []) (mk_term ''cat'' []) =
             (int s + int (length (term_text (mk_term ''cat'' []))),
              [] @ [mark_at (classedMark (map removeBias (term_tags (mk_term ''cat'' [])))) (int s)
                      (int s + int (length (term_text (mk_term ''cat'' []))))])"
      and s4: "\<forall>j. 3 \<le> int j \<and> j < s \<longrightarrow>
                take (length (term_text (mk_term ''cat'' []))) (drop j ''cat cat cat'') \<noteq>
                term_text (mk_term ''cat'' [])"
    by auto
  from s1 v have s: "s = 4" by (simp add: mk_term_def)
  from s4 have "(3::int) \<le> int 3 \<and> (3::nat) < s \<longrightarrow>
      take (length (term_text (mk_term ''cat'' []))) (drop 3 ''cat cat cat'') \<noteq>
      term_text (mk_term ''cat'' [])"
    by (rule spec)
  with s have l: "take 3 (drop 3 ''cat cat cat'') \<noteq> ''cat''" by (simp add: mk_term_def)
  from th h3 h1 h2 p obtain s' where "posMarks ''cat cat cat'' ([mk_term ''cat'' []] @ [mk_term ''cat'' []]) =
             posMarks ''cat cat cat'' [mk_term ''cat'' []] @
               [mark_at (classedMark (map removeBias (term_tags (mk_term ''cat'' [])))) (int s')
                  (int s' + int (length (term_text (mk_term ''cat'' []))))]"
    by auto
  with m1 m2 have m: "posMarks ''cat cat cat'' ([mk_term ''cat'' []] @ [mk_term ''cat'' []]) =
     posMarks ''cat cat cat'' [mk_term ''cat'' []] @ [mark_at [] 4 7]"
    by simp
  from h1 h2 p v m l show ?thesis by (simp add: mk_term_def)
qed

text \<open>
  Claim C8. \<open>removeBias\<close> renames the two gendered name tags and returns every other tag
  as it is. The class of every range of the parts-of-speech pass is built from the tags
  of a term after \<open>removeBias\<close> was applied to each of them.
\<close>

theorem removeBias_table:
  "removeBias ''MaleName'' = ''MasculineName'' \<and>
   removeBias ''FemaleName'' = ''FeminineName'' \<and>
   (tag \<noteq> ''MaleName'' \<and> tag \<noteq> ''FemaleName'' \<longrightarrow> removeBias tag = tag) \<and>
   (\<forall>m\<in>set (posMarks content termsArr).
      \<exists>t\<in>set termsArr. range_class m = classedMark (map removeBias (term_tags t)))"
proof -
  have "\<forall>m\<in>set (posMarks content termsArr).
      \<exists>t\<in>set termsArr. range_class m = classedMark (map removeBias (term_tags t))"
    using pos_classes [of _ content "(0, [])" termsArr]
    by (simp add: posMarks_def posLoop_def)
  then show ?thesis by (simp add: removeBias_def)
qed

theorem removeBias_table_witness:
  "removeBias ''Noun'' = ''Noun'' \<and>
   posMarks ''Bob ran'' [mk_term ''Bob'' [''MaleName'', ''Noun'']] =
     [mark_at ''MasculineName Noun'' 0 3] \<and>
   range_class (mark_at ''MasculineName Noun'' 0 3) =
     classedMark (map removeBias (term_tags (mk_term ''Bob'' [''MaleName'', ''Noun''])))"
proof -
  have m: "posMarks ''Bob ran'' [mk_term ''Bob'' [''MaleName'', ''Noun'']] =
     [mark_at ''MasculineName Noun'' 0 3]"
    by (simp add: posMarks_def posLoop_def posStep_def indexOf_def mk_term_def
        classedMark_def removeBias_def)
  from removeBias_table [of "''Noun''" "''Bob ran''" "[mk_term ''Bob'' [''MaleName'', ''Noun'']]"] m
  show ?thesis by simp
qed

section \<open>The document cache\<close>

lemma refreshLoop_append_ok:
  "\<forall>f\<in>set pre. \<exists>d. getWinkDocFromFile cachedRead readDoc (Some f) = Inr d \<Longrightarrow>
   refreshLoop cachedRead readDoc (pre @ rest) docs =
   refreshLoop cachedRead readDoc rest (fst (refreshLoop cachedRead readDoc pre docs))"
  by (induction pre arbitrary: docs) auto

lemma refreshLoop_ok_cache:
  "\<forall>f\<in>set pre. \<exists>d. getWinkDocFromFile cachedRead readDoc (Some f) = Inr d \<Longrightarrow>
   fst (refreshLoop cachedRead readDoc pre docs) q =
   (if q \<in> set pre
    then (case getWinkDocFromFile cachedRead readDoc (Some q) of Inl e \<Rightarrow> None | Inr d \<Rightarrow> Some d)
    else docs q)"
  by (induction pre arbitrary: docs) auto

text \<open>
  Claim C2, as amended. When the load of a path fails and the paths before it succeed,
  each path before the failing one is in the cache with its document, no other entry of
  the cache is written (the paths after the failing one are not visited), and the one
  notice ends with the error message, the value thrown being logged once.
\<close>

theorem refresh_stops_at_first_failure:
  assumes ok: "\<forall>f\<in>set pre. \<exists>d. getWinkDocFromFile cachedRead readDoc (Some f) = Inr d"
    and bad: "getWinkDocFromFile cachedRead readDoc (Some p) = Inl e"
  shows "(\<forall>f\<in>set pre. \<forall>d. getWinkDocFromFile cachedRead readDoc (Some f) = Inr d \<longrightarrow>
            out_Docs (refreshDocs cachedRead readDoc (pre @ p # post) docs) f = Some d) \<and>
         (\<forall>q. q \<notin> set pre \<longrightarrow>
            out_Docs (refreshDocs cachedRead readDoc (pre @ p # post) docs) q = docs q) \<and>
         out_notice (refreshDocs cachedRead readDoc (pre @ p # post) docs) =
           [''Refreshing docs...'', ''An error occured, check the console for more information.''] \<and>
         out_console (refreshDocs cachedRead readDoc (pre @ p # post) docs) = [e]"
proof -
  have loop: "refreshLoop cachedRead readDoc (pre @ p # post) docs =
      (fst (refreshLoop cachedRead readDoc pre docs), Some e)"
    using refreshLoop_append_ok [OF ok, of "p # post" docs] bad by simp
  have cache: "fst (refreshLoop cachedRead readDoc pre docs) q =
      (if q \<in> set pre
       then (case getWinkDocFromFile cachedRead readDoc (Some q) of Inl e \<Rightarrow> None | Inr d \<Rightarrow> Some d)
       else docs q)" for q
    using refreshLoop_ok_cache [OF ok] .
  show ?thesis by (simp add: refreshDocs_def loop cache)
qed

theorem refresh_stops_at_first_failure_witness:
  "getWinkDocFromFile read_fails_on_b readDoc_ok (Some ''a.md'') = Inr (Some ''doc of text of a.md'') \<and>
   getWinkDocFromFile read_fails_on_b readDoc_ok (Some ''b.md'') = Inl ''ENOENT'' \<and>
   out_Docs (refreshDocs read_fails_on_b readDoc_ok ([''a.md''] @ ''b.md'' # [''c.md'']) no_docs) ''a.md''
     = Some (Some ''doc of text of a.md'') \<and>
   out_Docs (refreshDocs read_fails_on_b readDoc_ok ([''a.md''] @ ''b.md'' # [''c.md'']) no_docs) ''c.md''
     = None \<and>
   out_console (refreshDocs read_fails_on_b readDoc_ok ([''a.md''] @ ''b.md'' # [''c.md'']) no_docs)
     = [''ENOENT'']"
proof -
  have h1: "\<forall>f\<in>set [''a.md'']. \<exists>d. getWinkDocFromFile read_fails_on_b readDoc_ok (Some f) = Inr d"
    by (simp add: getWinkDocFromFile_def read_fails_on_b_def readDoc_ok_def)
  have h2: "getWinkDocFromFile read_fails_on_b readDoc_ok (Some ''b.md'') = Inl ''ENOENT''"
    by (simp add: getWinkDocFromFile_def read_fails_on_b_def)
  have a: "getWinkDocFromFile read_fails_on_b readDoc_ok (Some ''a.md'') = Inr (Some ''doc of text of a.md'')"
    by (simp add: getWinkDocFromFile_def read_fails_on_b_def readDoc_ok_def)
  from refresh_stops_at_first_failure [OF h1 h2, of "[''c.md'']" no_docs] h2 a
  show ?thesis by (simp add: no_docs_def)
qed

text \<open>
  Claim C2 as stated fails: of three paths whose second cannot be read, the third could
  be loaded, yet it has no entry in the cache after the refresh.
\<close>

theorem refresh_counterexample:
  "getWinkDocFromFile read_fails_on_b readDoc_ok (Some ''c.md'') = Inr (Some ''doc of text of c.md'') \<and>
   ''c.md'' \<notin> dom (out_Docs (refreshDocs read_fails_on_b readDoc_ok three_files no_docs))"
  by (simp add: refreshDocs_def getWinkDocFromFile_def read_fails_on_b_def readDoc_ok_def
      three_files_def no_docs_def dom_def)

section \<open>Start-up\<close>




section \<open>Aggregate queries\<close>

lemma foldl_bow_add:
  "foldl bow_add b ws v =
     (case b v of
        None \<Rightarrow> (if v \<in> set ws then Some (count_list ws v) else None)
      | Some n \<Rightarrow> Some (n + count_list ws v))"
  by (induction ws arbitrary: b) (auto simp: bow_add_def split: option.splits)

lemma as_bow_eq: "as_bow ws v = (if v \<in> set ws then Some (count_list ws v) else None)"
  by (simp add: as_bow_def foldl_bow_add)

lemma count_list_map_filter:
  "count_list (map f (filter P xs)) v = length (filter (\<lambda>x. P x \<and> f x = v) xs)"
  by (induction xs) auto

text \<open>
  Claim C10. For a missing document \<open>getNoStopBoW\<close> returns the empty bag and
  \<open>getNoStopSet\<close> the empty set. For a document, the set holds exactly the values of the
  items of type \<open>word\<close> that are not stop words, and the bag maps each of these values to
  the number of such items with that value, and no other value to anything.
\<close>

theorem noStop_queries:
  "getNoStopBoW None kind = Map.empty \<and>
   getNoStopSet None kind = {} \<and>
   getNoStopSet (Some d) kind =
     {w. \<exists>i\<in>set (items_of d kind). its_value i = w \<and> its_type i = ''word'' \<and> \<not> its_stopWordFlag i} \<and>
   getNoStopBoW (Some d) kind w =
     (if w \<in> getNoStopSet (Some d) kind
      then Some (length (filter (\<lambda>i. (its_type i = ''word'' \<and> \<not> its_stopWordFlag i) \<and> its_value i = w)
                   (items_of d kind)))
      else None)"
  by (auto simp: getNoStopBoW_def getNoStopSet_def as_set_def as_bow_eq count_list_map_filter
      noStop_def)

theorem noStop_queries_witness:
  "getNoStopSet (Some sample_doc) Tokens = {''cat''} \<and>
   getNoStopBoW (Some sample_doc) Tokens ''cat'' = Some 2 \<and>
   getNoStopBoW (Some sample_doc) Tokens ''the'' = None"
proof -
  have s: "{w. \<exists>i\<in>set (items_of sample_doc Tokens).
      its_value i = w \<and> its_type i = ''word'' \<and> \<not> its_stopWordFlag i} = {''cat''}"
    by (auto simp: sample_doc_def word_item_def)
  from noStop_queries [of Tokens sample_doc "''cat''"] noStop_queries [of Tokens sample_doc "''the''"] s
  show ?thesis by (simp add: sample_doc_def word_item_def)
qed

section \<open>The decoration field keeps its ranges in order\<close>

lemma set_mergeRanges: "set (mergeRanges as bs) = set as \<union> set bs"
  by (induction as bs rule: mergeRanges.induct) auto

lemma sorted_mergeRanges:
  "sorted_wrt (\<lambda>a b. range_from a \<le> range_from b) as \<Longrightarrow>
   sorted_wrt (\<lambda>a b. range_from a \<le> range_from b) bs \<Longrightarrow>
   sorted_wrt (\<lambda>a b. range_from a \<le> range_from b) (mergeRanges as bs)"
  by (induction as bs rule: mergeRanges.induct) (auto simp: set_mergeRanges)

lemma addAll_ok:
  assumes "rangeset_ok rs" and "list_all range_ok batch"
  shows "rangeset_ok (addAll rs batch)"
proof -
  have "sorted_wrt (\<lambda>a b. range_from a \<le> range_from b) (sort_key range_from batch)"
    using sorted_sort_key [of range_from batch] by (simp add: sorted_map)
  with assms show ?thesis
    by (auto simp: rangeset_ok_def addAll_def sorted_mergeRanges list_all_iff set_mergeRanges)
qed

lemma filterRanges_ok: "rangeset_ok rs \<Longrightarrow> rangeset_ok (filterRanges p rs)"
  by (simp add: rangeset_ok_def filterRanges_def sorted_wrt_filter list_all_iff)

lemma in_mapThroughChange:
  "y \<in> set (mapThroughChange c rs) \<longleftrightarrow> (\<exists>x\<in>set rs. mapRange c x = Some y)"
  by (induction rs) (auto simp: mapThroughChange_def split: option.splits)

lemma mapRange_ok:
  "mapRange c r = Some r' \<Longrightarrow> range_ok r \<Longrightarrow> change_ok c \<Longrightarrow> range_ok r'"
  by (auto simp: mapRange_def Let_def range_ok_def change_ok_def split: if_splits)

lemma mapRange_mono:
  "mapRange c a = Some a' \<Longrightarrow> mapRange c b = Some b' \<Longrightarrow> range_from a \<le> range_from b \<Longrightarrow>
   range_ok a \<Longrightarrow> range_ok b \<Longrightarrow> change_ok c \<Longrightarrow> range_from a' \<le> range_from b'"
  by (auto simp: mapRange_def Let_def range_ok_def change_ok_def split: if_splits)

lemma mapThroughChange_ok:
  assumes c: "change_ok c"
  shows "rangeset_ok rs \<Longrightarrow> rangeset_ok (mapThroughChange c rs)"
proof (induction rs)
  case Nil
  then show ?case by (simp add: mapThroughChange_def rangeset_ok_def)
next
  case (Cons r rs)
  from Cons.prems have tl: "rangeset_ok rs" and hd: "range_ok r"
    and le: "\<forall>x\<in>set rs. range_from r \<le> range_from x" and all: "\<forall>x\<in>set rs. range_ok x"
    by (auto simp: rangeset_ok_def list_all_iff)
  from Cons.IH [OF tl] have ih: "rangeset_ok (mapThroughChange c rs)" .
  show ?case
  proof (cases "mapRange c r")
    case None
    then show ?thesis using ih by (simp add: mapThroughChange_def)
  next
    case (Some r')
    have ok': "range_ok r'" using mapRange_ok [OF Some hd c] .
    have first: "\<forall>y\<in>set (mapThroughChange c rs). range_from r' \<le> range_from y"
    proof
      fix y
      assume "y \<in> set (mapThroughChange c rs)"
      then obtain x where x: "x \<in> set rs" "mapRange c x = Some y"
        by (auto simp: in_mapThroughChange)
      with le all have lx: "range_from r \<le> range_from x" and okx: "range_ok x" by auto
      from mapRange_mono [OF Some x(2) lx hd okx c] show "range_from r' \<le> range_from y" .
    qed
    have "mapThroughChange c (r # rs) = r' # mapThroughChange c rs"
      using Some by (simp add: mapThroughChange_def)
    with ok' first ih show ?thesis by (simp add: rangeset_ok_def)
  qed
qed

lemma applyOp_ok: "rangeset_ok rs \<Longrightarrow> op_ok op \<Longrightarrow> rangeset_ok (applyOp rs op)"
  by (cases op) (simp_all add: addAll_ok filterRanges_ok mapThroughChange_ok)

lemma foldl_applyOp_ok:
  "rangeset_ok rs \<Longrightarrow> list_all op_ok ops \<Longrightarrow> rangeset_ok (foldl applyOp rs ops)"
  by (induction ops arbitrary: rs) (simp_all add: applyOp_ok)

lemma applyEffect_ok: "rangeset_ok v \<Longrightarrow> effect_ok e \<Longrightarrow> rangeset_ok (applyEffect v e)"
  by (cases e) (simp_all add: addAll_ok filterRanges_ok)

lemma foldl_applyEffect_ok:
  "rangeset_ok v \<Longrightarrow> list_all effect_ok es \<Longrightarrow> rangeset_ok (foldl applyEffect v es)"
  by (induction es arbitrary: v) (simp_all add: applyEffect_ok)

lemma in_map_filter: "y \<in> set (List.map_filter f xs) \<longleftrightarrow> (\<exists>x\<in>set xs. f x = Some y)"
  by (induction xs) (auto split: option.splits)

lemma map_filter_rangeset_ok:
  assumes ok: "\<And>r r'. range_ok r \<Longrightarrow> f r = Some r' \<Longrightarrow> range_ok r'"
    and mono: "\<And>a b a' b'. range_ok a \<Longrightarrow> range_ok b \<Longrightarrow> range_from a \<le> range_from b \<Longrightarrow>
        f a = Some a' \<Longrightarrow> f b = Some b' \<Longrightarrow> range_from a' \<le> range_from b'"
  shows "rangeset_ok rs \<Longrightarrow> rangeset_ok (List.map_filter f rs)"
proof (induction rs)
  case Nil
  then show ?case by (simp add: rangeset_ok_def)
next
  case (Cons r rs)
  from Cons.prems have tl: "rangeset_ok rs" and hd: "range_ok r"
    and le: "\<forall>x\<in>set rs. range_from r \<le> range_from x" and all: "\<forall>x\<in>set rs. range_ok x"
    by (auto simp: rangeset_ok_def list_all_iff)
  from Cons.IH [OF tl] have ih: "rangeset_ok (List.map_filter f rs)" .
  show ?case
  proof (cases "f r")
    case None
    then show ?thesis using ih by simp
  next
    case (Some r')
    have ok': "range_ok r'" using ok [OF hd Some] .
    have first: "\<forall>y\<in>set (List.map_filter f rs). range_from r' \<le> range_from y"
    proof
      fix y
      assume "y \<in> set (List.map_filter f rs)"
      then obtain x where x: "x \<in> set rs" "f x = Some y"
        by (auto simp: in_map_filter)
      with le all have lx: "range_from r \<le> range_from x" and okx: "range_ok x" by auto
      from mono [OF hd okx lx Some x(2)] show "range_from r' \<le> range_from y" .
    qed
    have "List.map_filter f (r # rs) = r' # List.map_filter f rs"
      using Some by simp
    with ok' first ih show ?thesis by (simp add: rangeset_ok_def)
  qed
qed

lemma shiftFor_behind: "\<forall>c\<in>set cs. range_to r \<le> change_from c \<Longrightarrow> shiftFor cs r = Some 0"
  by (induction cs) simp_all

lemma shiftFor_lower:
  assumes r: "range_ok r"
  shows "list_all change_ok cs \<Longrightarrow> sorted_wrt (\<lambda>c d. change_to c \<le> change_from d) cs \<Longrightarrow>
     \<forall>c\<in>set cs. lo \<le> change_from c \<Longrightarrow> shiftFor cs r = Some d \<Longrightarrow>
     min (range_from r) lo \<le> range_from r + d"
proof (induction cs arbitrary: lo d)
  case Nil
  then show ?case by simp
next
  case (Cons c cs)
  from Cons.prems have c: "change_ok c" and cs: "list_all change_ok cs"
    and behind: "\<forall>x\<in>set cs. change_to c \<le> change_from x"
    and sorted: "sorted_wrt (\<lambda>c d. change_to c \<le> change_from d) cs"
    and lo: "lo \<le> change_from c"
    by simp_all
  show ?case
  proof (cases "range_to r \<le> change_from c")
    case True
    with Cons.prems(4) have "shiftFor cs r = Some d" by simp
    from Cons.IH [OF cs sorted behind this]
    have "min (range_from r) (change_to c) \<le> range_from r + d" .
    with True r c show ?thesis
      by (simp add: range_ok_def change_ok_def min_def split: if_splits)
  next
    case False
    with Cons.prems(4) obtain d' where before: "change_to c \<le> range_from r"
      and d': "shiftFor cs r = Some d'"
      and d: "d = insertedLength c - (change_to c - change_from c) + d'"
      by (auto split: if_splits)
    from Cons.IH [OF cs sorted behind d']
    have "min (range_from r) (change_to c) \<le> range_from r + d'" .
    with before c lo d show ?thesis
      by (simp add: change_ok_def min_def split: if_splits)
  qed
qed

lemma shiftFor_mono:
  assumes a: "range_ok a" and b: "range_ok b" and le: "range_from a \<le> range_from b"
  shows "list_all change_ok cs \<Longrightarrow> sorted_wrt (\<lambda>c d. change_to c \<le> change_from d) cs \<Longrightarrow>
     shiftFor cs a = Some da \<Longrightarrow> shiftFor cs b = Some db \<Longrightarrow>
     range_from a + da \<le> range_from b + db"
proof (induction cs arbitrary: da db)
  case Nil
  then show ?case using le by simp
next
  case (Cons c cs)
  from Cons.prems have c: "change_ok c" and cs: "list_all change_ok cs"
    and behind: "\<forall>x\<in>set cs. change_to c \<le> change_from x"
    and sorted: "sorted_wrt (\<lambda>c d. change_to c \<le> change_from d) cs"
    by simp_all
  show ?case
  proof (cases "range_to a \<le> change_from c")
    case True
    have "\<forall>x\<in>set cs. range_to a \<le> change_from x"
    proof
      fix x
      assume "x \<in> set cs"
      with behind have "change_to c \<le> change_from x" by blast
      with True c show "range_to a \<le> change_from x" by (simp add: change_ok_def)
    qed
    from shiftFor_behind [OF this] True Cons.prems(3) have da: "da = 0" by simp
    show ?thesis
    proof (cases "range_to b \<le> change_from c")
      case bTrue: True
      with Cons.prems(4) have "shiftFor cs b = Some db" by simp
      from shiftFor_lower [OF b cs sorted behind this]
      have "min (range_from b) (change_to c) \<le> range_from b + db" .
      with bTrue b c le da show ?thesis
        by (simp add: range_ok_def change_ok_def min_def split: if_splits)
    next
      case bFalse: False
      with Cons.prems(4) obtain d' where before: "change_to c \<le> range_from b"
        and d': "shiftFor cs b = Some d'"
        and db: "db = insertedLength c - (change_to c - change_from c) + d'"
        by (auto split: if_splits)
      from shiftFor_lower [OF b cs sorted behind d']
      have "min (range_from b) (change_to c) \<le> range_from b + d'" .
      with before True a c da db show ?thesis
        by (simp add: range_ok_def change_ok_def min_def split: if_splits)
    qed
  next
    case False
    with Cons.prems(3) obtain da' where ca: "change_to c \<le> range_from a"
      and da': "shiftFor cs a = Some da'"
      and da: "da = insertedLength c - (change_to c - change_from c) + da'"
      by (auto split: if_splits)
    have nb: "\<not> range_to b \<le> change_from c"
      using ca le b c by (simp add: range_ok_def change_ok_def)
    with Cons.prems(4) obtain db' where db': "shiftFor cs b = Some db'"
      and db: "db = insertedLength c - (change_to c - change_from c) + db'"
      by (auto split: if_splits)
    from Cons.IH [OF cs sorted da' db'] da db show ?thesis by simp
  qed
qed

lemma mapRangeThrough_ok:
  assumes cs: "changes_ok cs" and r: "range_ok r" and m: "mapRangeThrough cs r = Some r'"
  shows "range_ok r'"
proof -
  from m obtain d where d: "shiftFor cs r = Some d"
    and r': "r' = r\<lparr>range_from := range_from r + d, range_to := range_to r + d\<rparr>"
    by (auto simp: mapRangeThrough_def)
  from cs have all: "list_all change_ok cs"
    and sorted: "sorted_wrt (\<lambda>c d. change_to c \<le> change_from d) cs"
    by (simp_all add: changes_ok_def)
  from all have "\<forall>c\<in>set cs. 0 \<le> change_from c"
    by (simp add: list_all_iff change_ok_def)
  from shiftFor_lower [OF r all sorted this d]
  have "min (range_from r) 0 \<le> range_from r + d" .
  with r r' show ?thesis by (simp add: range_ok_def min_def split: if_splits)
qed

lemma mapRangeThrough_mono:
  assumes cs: "changes_ok cs" and a: "range_ok a" and b: "range_ok b"
    and le: "range_from a \<le> range_from b"
    and ma: "mapRangeThrough cs a = Some a'" and mb: "mapRangeThrough cs b = Some b'"
  shows "range_from a' \<le> range_from b'"
proof -
  from ma obtain da where da: "shiftFor cs a = Some da" and a': "range_from a' = range_from a + da"
    by (auto simp: mapRangeThrough_def)
  from mb obtain db where db: "shiftFor cs b = Some db" and b': "range_from b' = range_from b + db"
    by (auto simp: mapRangeThrough_def)
  from cs have all: "list_all change_ok cs"
    and sorted: "sorted_wrt (\<lambda>c d. change_to c \<le> change_from d) cs"
    by (simp_all add: changes_ok_def)
  from shiftFor_mono [OF a b le all sorted da db] a' b' show ?thesis by simp
qed

lemma mapThroughChanges_ok:
  assumes cs: "changes_ok cs" and rs: "rangeset_ok rs"
  shows "rangeset_ok (mapThroughChanges cs rs)"
  unfolding mapThroughChanges_def
proof (rule map_filter_rangeset_ok)
  fix r r'
  assume "range_ok r" and "mapRangeThrough cs r = Some r'"
  then show "range_ok r'" by (rule mapRangeThrough_ok [OF cs])
next
  fix a b a' b'
  assume "range_ok a" and "range_ok b" and "range_from a \<le> range_from b"
    and "mapRangeThrough cs a = Some a'" and "mapRangeThrough cs b = Some b'"
  then show "range_from a' \<le> range_from b'" by (rule mapRangeThrough_mono [OF cs])
next
  show "rangeset_ok rs" by (rule rs)
qed

text \<open>One change alone is mapped through as \<open>mapThroughChange\<close> does.\<close>

lemma mapRangeThrough_single: "mapRangeThrough [c] r = mapRange c r"
  by (cases r) (simp add: mapRangeThrough_def mapRange_def Let_def)

lemma mapThroughChanges_single: "mapThroughChanges [c] rs = mapThroughChange c rs"
proof -
  have "mapRangeThrough [c] = mapRange c"
    by (rule ext) (rule mapRangeThrough_single)
  then show ?thesis by (simp add: mapThroughChanges_def mapThroughChange_def)
qed

text \<open>
  The changes of a transaction are read in the offsets before the transaction: with
  three characters inserted at 0 and the character at 5 deleted, the range from 4 to 5
  moves to 7 and the range from 10 to 15 moves to 12.
\<close>

lemma markField_update_offsets:
  "markField_update [mark_at ''A'' 4 5, mark_at ''B'' 10 15]
     \<lparr>tr_changes = [\<lparr>change_from = 0, change_to = 0, insertedLength = 3\<rparr>,
                    \<lparr>change_from = 5, change_to = 6, insertedLength = 0\<rparr>],
      tr_effects = []\<rparr> =
   [mark_at ''A'' 7 8, mark_at ''B'' 12 17]"
  by (simp add: markField_update_def mapThroughChanges_def mapRangeThrough_def mark_at_def)

lemma markField_update_ok:
  "rangeset_ok v \<Longrightarrow> transaction_ok tr \<Longrightarrow> rangeset_ok (markField_update v tr)"
  by (simp add: markField_update_def transaction_ok_def foldl_applyEffect_ok mapThroughChanges_ok)

lemma foldl_markField_update_ok:
  "rangeset_ok v \<Longrightarrow> list_all transaction_ok trs \<Longrightarrow> rangeset_ok (foldl markField_update v trs)"
  by (induction trs arbitrary: v) (simp_all add: markField_update_ok)

text \<open>
  The value of the field after any sequence of well-formed transactions that add
  well-formed ranges.
\<close>

lemma markField_invariant:
  "list_all transaction_ok trs \<Longrightarrow> rangeset_ok (foldl markField_update markField_create trs)"
  by (rule foldl_markField_update_ok) (simp_all add: markField_create_def rangeset_ok_def)

text \<open>
  Claim C9, as amended. Provided that every range added satisfies \<open>0 \<le> start < end\<close>
  and that every change satisfies \<open>0 \<le> from \<le> to\<close> with a non-negative inserted
  length, the ranges are sorted by start and each satisfies \<open>0 \<le> start < end\<close> after any
  sequence of the three operations.
\<close>

theorem rangeset_invariant:
  "rangeset_ok rs \<and> list_all op_ok ops \<longrightarrow> rangeset_ok (foldl applyOp rs ops)"
  using foldl_applyOp_ok [of rs ops] by blast

theorem rangeset_invariant_witness:
  "rangeset_ok [] \<and>
   list_all op_ok [AddAll [mark_at ''Noun'' 10 15, mark_at ''Verb'' 6 9],
      MapThroughChange \<lparr>change_from = 5, change_to = 8, insertedLength = 2\<rparr>,
      Filter (has_class ''Noun'')] \<and>
   rangeset_ok (foldl applyOp [] [AddAll [mark_at ''Noun'' 10 15, mark_at ''Verb'' 6 9],
      MapThroughChange \<lparr>change_from = 5, change_to = 8, insertedLength = 2\<rparr>,
      Filter (has_class ''Noun'')]) \<and>
   foldl applyOp [] [AddAll [mark_at ''Noun'' 10 15, mark_at ''Verb'' 6 9],
      MapThroughChange \<lparr>change_from = 5, change_to = 8, insertedLength = 2\<rparr>,
      Filter (has_class ''Noun'')] = [mark_at ''Noun'' 9 14]"
proof -
  have h1: "rangeset_ok []" by (simp add: rangeset_ok_def)
  have h2: "list_all op_ok [AddAll [mark_at ''Noun'' 10 15, mark_at ''Verb'' 6 9],
      MapThroughChange \<lparr>change_from = 5, change_to = 8, insertedLength = 2\<rparr>,
      Filter (has_class ''Noun'')]"
    by (simp add: range_ok_def change_ok_def mark_at_def)
  have v: "foldl applyOp [] [AddAll [mark_at ''Noun'' 10 15, mark_at ''Verb'' 6 9],
      MapThroughChange \<lparr>change_from = 5, change_to = 8, insertedLength = 2\<rparr>,
      Filter (has_class ''Noun'')] = [mark_at ''Noun'' 9 14]"
    by (simp add: addAll_def mapThroughChange_def mapRange_def filterRanges_def has_class_def
        mark_at_def Let_def)
  from rangeset_invariant [of "[]" "[AddAll [mark_at ''Noun'' 10 15, mark_at ''Verb'' 6 9],
      MapThroughChange \<lparr>change_from = 5, change_to = 8, insertedLength = 2\<rparr>,
      Filter (has_class ''Noun'')]"] h1 h2
  have "rangeset_ok (foldl applyOp [] [AddAll [mark_at ''Noun'' 10 15, mark_at ''Verb'' 6 9],
      MapThroughChange \<lparr>change_from = 5, change_to = 8, insertedLength = 2\<rparr>,
      Filter (has_class ''Noun'')])"
    by blast
  with h1 h2 v show ?thesis by blast
qed

text \<open>
  Claim C9 as stated fails: the parts-of-speech pass on the text \<open>abc\<close> with the one
  fragment \<open>xy\<close> produces a range that starts at \<open>-1\<close>, and adding its ranges to the
  empty set leaves that range in the set.
\<close>

theorem rangeset_counterexample:
  "foldl applyOp [] [AddAll (posMarks ''abc'' [mk_term ''xy'' []])] = [mark_at [] (- 1) 1] \<and>
   \<not> rangeset_ok (foldl applyOp [] [AddAll (posMarks ''abc'' [mk_term ''xy'' []])])"
  by (simp add: addAll_def posMarks_def posLoop_def
      posStep_def indexOf_def mk_term_def classedMark_def rangeset_ok_def range_ok_def mark_at_def)

end
